theory Spec2Isabelle
  imports Main "HOL-Library.Word"
begin

section \<open>Data model\<close>

text \<open>
  Versions are Go \<^verbatim>\<open>int64\<close> values: 64-bit words whose order is the signed one
  (\<open>sint\<close>) and whose addition wraps around.
\<close>

type_synonym int64 = "64 word"

text \<open>
  Errors returned as values.  The first two are the sentinel errors the migrator names;
  the others stand for what the store (gorm) or a migration procedure reports.
\<close>

datatype error =
    ErrorTargetVersionNotFound
  | ErrorSomeMigrationsAreAbsent
  | ErrRecordNotFound
  | ErrDuplicatedKey
  | ErrStore
  | ErrProcedure nat

text \<open>A Go run-time panic: the call does not return.\<close>

datatype panic = IndexOutOfRange | NilDereference

text \<open>
  \<^verbatim>\<open>type ApplyFunc func(db *gorm.DB) error\<close>.  A procedure is modelled as a transformer of
  the schema part \<open>'s\<close> of the database that may report an error; the \<^verbatim>\<open>migrations\<close>
  table itself is written by the migrator only.  A field of this type may be \<^verbatim>\<open>nil\<close>
  (\<open>None\<close>): records loaded from the table carry no procedures.
\<close>

type_synonym 's ApplyFunc = "'s \<Rightarrow> error option \<times> 's"

record 's Migration =
  Version :: int64
  Name :: string
  Up :: "'s ApplyFunc option"
  Down :: "'s ApplyFunc option"
  Stored :: bool

text \<open>\<^verbatim>\<open>CompareMigrations\<close>: \<^verbatim>\<open>left.Version < right.Version\<close> on signed 64-bit integers.\<close>

definition CompareMigrations :: "'s Migration \<Rightarrow> 's Migration \<Rightarrow> bool" where
  "CompareMigrations left right \<longleftrightarrow> sint (Version left) < sint (Version right)"

definition Less :: "'s Migration \<Rightarrow> 's Migration \<Rightarrow> bool" where
  "Less mig migration \<longleftrightarrow> CompareMigrations mig migration"

definition Eq :: "'s Migration \<Rightarrow> 's Migration \<Rightarrow> bool" where
  "Eq mig migration \<longleftrightarrow> Version migration = Version mig"

section \<open>The reconciliation engine\<close>

subsection \<open>mergeMigrations\<close>

text \<open>
  The bound \<^verbatim>\<open>max\<close> (here \<open>maxv\<close>): zero for an empty registry, the last registry
  version plus one when the target is \<open>-1\<close> (unset), the target plus one otherwise.  Both
  additions wrap.
\<close>

definition mergeMax :: "'s Migration list \<Rightarrow> int64 \<Rightarrow> int64" where
  "mergeMax actual target =
     (if length actual > 0
      then (if target = - 1 then Version (actual ! (length actual - 1)) + 1 else target + 1)
      else 0)"

text \<open>
  The first loop, with the cursors \<open>i\<close> and \<open>j\<close> as in the source.  The loop condition
  guards \<^verbatim>\<open>applied[i]\<close> and \<^verbatim>\<open>actual[j]\<close>; the second comparison reads \<^verbatim>\<open>applied[j]\<close>,
  which nothing guards, so that access carries its bounds check: out of range the
  program panics.
\<close>

function mergeLoop1 ::
  "'s Migration list \<Rightarrow> 's Migration list \<Rightarrow> int64 \<Rightarrow> nat \<Rightarrow> nat \<Rightarrow> 's Migration list
     \<Rightarrow> panic + (nat \<times> nat \<times> 's Migration list)" where
  "mergeLoop1 applied actual maxv i j merged =
     (if i < length applied \<and> j < length actual
           \<and> (length actual = 0 \<or> sint (Version (actual ! j)) < sint maxv)
      then
        (if Less (applied ! i) (actual ! j)
         then mergeLoop1 applied actual maxv (i + 1) j (merged @ [applied ! i])
         else if j < length applied
         then
           (if Less (actual ! j) (applied ! j)
            then mergeLoop1 applied actual maxv i (j + 1) (merged @ [actual ! j])
            else mergeLoop1 applied actual maxv (i + 1) (j + 1) (merged @ [applied ! i]))
         else Inl IndexOutOfRange)
      else Inr (i, j, merged))"
  by pat_completeness auto
termination
  by (relation "measure (\<lambda>(applied, actual, maxv, i, j, merged).
        (length applied - i) + (length actual - j))") auto

declare mergeLoop1.simps [simp del]

text \<open>The second loop appends what is left of \<open>applied\<close>.\<close>

function mergeLoop2 :: "'s Migration list \<Rightarrow> nat \<Rightarrow> 's Migration list \<Rightarrow> 's Migration list" where
  "mergeLoop2 applied i merged =
     (if i < length applied then mergeLoop2 applied (i + 1) (merged @ [applied ! i])
      else merged)"
  by pat_completeness auto
termination
  by (relation "measure (\<lambda>(applied, i, merged). length applied - i)") auto

declare mergeLoop2.simps [simp del]

text \<open>The third loop appends the registry entries still under the bound.\<close>

function mergeLoop3 ::
  "'s Migration list \<Rightarrow> int64 \<Rightarrow> nat \<Rightarrow> 's Migration list \<Rightarrow> 's Migration list" where
  "mergeLoop3 actual maxv j merged =
     (if j < length actual \<and> (length actual = 0 \<or> sint (Version (actual ! j)) < sint maxv)
      then mergeLoop3 actual maxv (j + 1) (merged @ [actual ! j])
      else merged)"
  by pat_completeness auto
termination
  by (relation "measure (\<lambda>(actual, maxv, j, merged). length actual - j)") auto

declare mergeLoop3.simps [simp del]

definition mergeMigrations ::
  "'s Migration list \<Rightarrow> 's Migration list \<Rightarrow> int64 \<Rightarrow> panic + 's Migration list" where
  "mergeMigrations applied actual target =
     (let maxv = mergeMax actual target in
      case mergeLoop1 applied actual maxv 0 0 [] of
        Inl p \<Rightarrow> Inl p
      | Inr (i, j, merged) \<Rightarrow>
          Inr (mergeLoop3 actual maxv j (mergeLoop2 applied i merged)))"

subsection \<open>correlateMigrations\<close>

text \<open>
  One loop over both cursors; every access is guarded by the loop condition or by the
  test that follows the loop.  The result pairs the correlated list with the error.
\<close>

function correlateLoop ::
  "'s Migration list \<Rightarrow> 's Migration list \<Rightarrow> nat \<Rightarrow> nat \<Rightarrow> 's Migration list
     \<Rightarrow> 's Migration list \<times> error option" where
  "correlateLoop applied actual i j correlated =
     (if i < length applied \<and> j < length actual
      then
        (if Less (applied ! i) (actual ! j)
         then (correlated @ [applied ! i], Some ErrorSomeMigrationsAreAbsent)
         else if Less (actual ! j) (applied ! i)
         then correlateLoop applied actual i (j + 1) correlated
         else correlateLoop applied actual (i + 1) (j + 1) (correlated @ [actual ! j]))
      else if i < length applied
      then (correlated @ [applied ! i], Some ErrorSomeMigrationsAreAbsent)
      else (correlated, None))"
  by pat_completeness auto
termination
  by (relation "measure (\<lambda>(applied, actual, i, j, correlated).
        (length applied - i) + (length actual - j))") auto

declare correlateLoop.simps [simp del]

definition correlateMigrations ::
  "'s Migration list \<Rightarrow> 's Migration list \<Rightarrow> 's Migration list \<times> error option" where
  "correlateMigrations applied actual = correlateLoop applied actual 0 0 []"

text \<open>
  The same loop on the two suffixes that the cursors leave to read; \<open>correlateLoop_Rec\<close>
  below shows that it computes what the cursor loop computes.
\<close>

fun correlateRec ::
  "'s Migration list \<Rightarrow> 's Migration list \<Rightarrow> 's Migration list
     \<Rightarrow> 's Migration list \<times> error option" where
  "correlateRec [] rs acc = (acc, None)"
| "correlateRec (a # as) [] acc = (acc @ [a], Some ErrorSomeMigrationsAreAbsent)"
| "correlateRec (a # as) (r # rs) acc =
     (if Less a r then (acc @ [a], Some ErrorSomeMigrationsAreAbsent)
      else if Less r a then correlateRec (a # as) rs acc
      else correlateRec as rs (acc @ [r]))"

section \<open>The history store\<close>

text \<open>
  A row of the \<^verbatim>\<open>migrations\<close> table: the two persisted columns of a \<^verbatim>\<open>Migration\<close>
  (\<^verbatim>\<open>Up\<close>, \<^verbatim>\<open>Down\<close> and \<^verbatim>\<open>Stored\<close> are tagged \<^verbatim>\<open>gorm:"-"\<close>).
\<close>

record row =
  row_version :: int64
  row_name :: string

text \<open>
  The journal is the spy of the model: every call of a migration procedure and every
  write issued to the store is appended to it, whether it succeeds or not.
\<close>

datatype event =
    Forward int64
  | Backward int64
  | Create row
  | CreateBatch "row list"
  | DeleteAll

text \<open>
  The database: the table with its rows in insertion order, the schema the procedures
  work on, and the journal.
\<close>

record 's db =
  table :: "row list"
  schema :: 's
  journal :: "event list"

text \<open>
  The store can fail for reasons of its own (connection, disk).  Which operations do is
  a parameter of every controller operation.
\<close>

datatype store_op = OpFind | OpLast | OpCreate row | OpCreateBatch | OpDeleteAll

type_synonym faults = "store_op \<Rightarrow> bool"

definition row_of :: "'s Migration \<Rightarrow> row" where
  "row_of m = \<lparr>row_version = Version m, row_name = Name m\<rparr>"

text \<open>A row read back from the table: no procedures, \<^verbatim>\<open>Stored\<close> at its zero value.\<close>

definition loaded :: "row \<Rightarrow> 's Migration" where
  "loaded r = \<lparr>Version = row_version r, Name = row_name r, Up = None, Down = None, Stored = False\<rparr>"

text \<open>
  Modelled from the spec: the History Store contract of section 6, which stands for the
  gorm calls of the source (gorm is not part of the repository).
  \<^item> \<open>find_ordered\<close> (\<^verbatim>\<open>db.Order("version ASC").Find\<close>): all rows, ascending by signed
    version.
  \<^item> \<open>last_record\<close> (\<^verbatim>\<open>db.Last\<close>): the most recently inserted row; on an empty table the
    read error.
  \<^item> \<open>create\<close> (\<^verbatim>\<open>db.Create\<close> of one record): appends the row; \<^verbatim>\<open>version\<close> is the primary
    key, so a version already in the table is refused.
  \<^item> \<open>create_batch\<close> (\<^verbatim>\<open>db.Create\<close> of a slice): one insert of all rows, refused as a
    whole on a key conflict.
  \<^item> \<open>delete_all\<close> (\<^verbatim>\<open>DELETE FROM migrations\<close>).
  A failed operation leaves the table as it was.
\<close>

definition find_ordered :: "faults \<Rightarrow> 's db \<Rightarrow> error + row list" where
  "find_ordered flt d =
     (if flt OpFind then Inl ErrStore
      else Inr (sort_key (\<lambda>r. sint (row_version r)) (table d)))"

definition last_record :: "faults \<Rightarrow> 's db \<Rightarrow> error + row" where
  "last_record flt d =
     (if flt OpLast then Inl ErrStore
      else if table d = [] then Inl ErrRecordNotFound
      else Inr (last (table d)))"

definition create :: "faults \<Rightarrow> row \<Rightarrow> 's db \<Rightarrow> error option \<times> 's db" where
  "create flt r d =
     (let d' = d\<lparr>journal := journal d @ [Create r]\<rparr> in
      if flt (OpCreate r) then (Some ErrStore, d')
      else if row_version r \<in> row_version ` set (table d) then (Some ErrDuplicatedKey, d')
      else (None, d'\<lparr>table := table d @ [r]\<rparr>))"

definition create_batch :: "faults \<Rightarrow> row list \<Rightarrow> 's db \<Rightarrow> error option \<times> 's db" where
  "create_batch flt rs d =
     (let d' = d\<lparr>journal := journal d @ [CreateBatch rs]\<rparr> in
      if flt OpCreateBatch then (Some ErrStore, d')
      else if \<not> distinct (map row_version (table d @ rs)) then (Some ErrDuplicatedKey, d')
      else (None, d'\<lparr>table := table d @ rs\<rparr>))"

definition delete_all :: "faults \<Rightarrow> 's db \<Rightarrow> error option \<times> 's db" where
  "delete_all flt d =
     (let d' = d\<lparr>journal := journal d @ [DeleteAll]\<rparr> in
      if flt OpDeleteAll then (Some ErrStore, d')
      else (None, d'\<lparr>table := []\<rparr>))"

section \<open>The migration controller\<close>

text \<open>
  Every entry point returns \<^verbatim>\<open>(oldVersion, newVersion, err)\<close>; the model pairs that with
  the database after the call.  The registry \<^verbatim>\<open>m.migrations\<close> is the parameter
  \<open>migrations\<close>.
\<close>

type_synonym outcome = "int64 \<times> int64 \<times> error option"

subsection \<open>Up\<close>

text \<open>
  The loop over \<open>merged\<close>: for an entry that is not stored, run its forward procedure
  (a \<^verbatim>\<open>nil\<close> procedure panics), set \<^verbatim>\<open>newVersion\<close>, then insert its record.  The loop
  returns at the first error with \<^verbatim>\<open>newVersion\<close> as it stands.
\<close>

fun upLoop ::
  "faults \<Rightarrow> 's Migration list \<Rightarrow> int64 \<Rightarrow> 's db \<Rightarrow> panic + ((int64 \<times> error option) \<times> 's db)" where
  "upLoop flt [] newVersion d = Inr ((newVersion, None), d)"
| "upLoop flt (migr # merged) newVersion d =
     (if \<not> Stored migr
      then
        (case Up migr of
           None \<Rightarrow> Inl NilDereference
         | Some f \<Rightarrow>
             (let d1 = d\<lparr>journal := journal d @ [Forward (Version migr)]\<rparr> in
              case f (schema d1) of
                (Some e, s) \<Rightarrow> Inr ((newVersion, Some e), d1\<lparr>schema := s\<rparr>)
              | (None, s) \<Rightarrow>
                  (case create flt (row_of migr) (d1\<lparr>schema := s\<rparr>) of
                     (Some e, d2) \<Rightarrow> Inr ((Version migr, Some e), d2)
                   | (None, d2) \<Rightarrow> upLoop flt merged (Version migr) d2)))
      else upLoop flt merged newVersion d)"

definition Migrator_Up ::
  "faults \<Rightarrow> 's Migration list \<Rightarrow> int64 \<Rightarrow> 's db \<Rightarrow> panic + (outcome \<times> 's db)" where
  "Migrator_Up flt migrations target d =
     (case find_ordered flt d of
        Inl e \<Rightarrow> Inr ((0, 0, Some e), d)
      | Inr found \<Rightarrow>
          (let history = map (\<lambda>r. (loaded r)\<lparr>Stored := True\<rparr>) found;
               version = (if length history > 0 then Version (history ! (length history - 1)) else 0)
           in case mergeMigrations history migrations target of
                Inl p \<Rightarrow> Inl p
              | Inr merged \<Rightarrow>
                  (case upLoop flt merged version d of
                     Inl p \<Rightarrow> Inl p
                   | Inr ((newVersion, err), d') \<Rightarrow> Inr ((version, newVersion, err), d'))))"

subsection \<open>Version and SetVersion\<close>

definition Migrator_Version :: "faults \<Rightarrow> 's db \<Rightarrow> outcome" where
  "Migrator_Version flt d =
     (case last_record flt d of
        Inl e \<Rightarrow> (0, 0, Some e)
      | Inr mig \<Rightarrow> (row_version mig, row_version mig, None))"

text \<open>
  The search loop of \<^verbatim>\<open>SetVersion\<close>: copy the registry into \<^verbatim>\<open>migs\<close> up to and including
  the first descriptor of the target version; \<open>None\<close> is the index \<open>-1\<close>.
\<close>

fun setVersionLoop ::
  "'s Migration list \<Rightarrow> int64 \<Rightarrow> nat \<Rightarrow> 's Migration list \<Rightarrow> nat option \<times> 's Migration list" where
  "setVersionLoop [] target i migs = (None, migs)"
| "setVersionLoop (migr # rest) target i migs =
     (if Version migr = target then (Some i, migs @ [migr])
      else setVersionLoop rest target (i + 1) (migs @ [migr]))"

definition Migrator_SetVersion ::
  "faults \<Rightarrow> 's Migration list \<Rightarrow> int64 \<Rightarrow> 's db \<Rightarrow> outcome \<times> 's db" where
  "Migrator_SetVersion flt migrations target d =
     (case Migrator_Version flt d of
        (oldVersion, _, Some e) \<Rightarrow> ((oldVersion, 0, Some e), d)
      | (oldVersion, _, None) \<Rightarrow>
          (case setVersionLoop migrations target 0 [] of
             (None, migs) \<Rightarrow> ((oldVersion, 0, Some ErrorTargetVersionNotFound), d)
           | (Some index, migs) \<Rightarrow>
               (let newVersion = (if oldVersion = Version (migrations ! index) then oldVersion else 0)
                in case delete_all flt d of
                     (Some e, d1) \<Rightarrow> ((oldVersion, newVersion, Some e), d1)
                   | (None, d1) \<Rightarrow>
                       (case create_batch flt (map row_of migs) d1 of
                          (Some e, d2) \<Rightarrow> ((oldVersion, newVersion, Some e), d2)
                        | (None, d2) \<Rightarrow>
                            ((oldVersion, Version (migs ! (length migs - 1)), None), d2)))))"

section \<open>Vocabulary of the statements\<close>

text \<open>\<open>present rs a\<close>: the version of \<open>a\<close> occurs in \<open>rs\<close>.\<close>

definition present :: "'s Migration list \<Rightarrow> 's Migration \<Rightarrow> bool" where
  "present rs a \<longleftrightarrow> Version a \<in> Version ` set rs"

text \<open>\<open>matched as rs\<close>: the entries of \<open>rs\<close> whose version occurs in \<open>as\<close>, in the order of \<open>rs\<close>.\<close>

definition matched :: "'s Migration list \<Rightarrow> 's Migration list \<Rightarrow> 's Migration list" where
  "matched as rs = filter (present as) rs"

text \<open>The entries of a merged list that \<^verbatim>\<open>Up\<close> still has to apply.\<close>

definition pending :: "'s Migration list \<Rightarrow> 's Migration list" where
  "pending ms = filter (\<lambda>m. \<not> Stored m) ms"

text \<open>What a completed step of \<^verbatim>\<open>Up\<close> leaves in the journal.\<close>

definition step_events :: "'s Migration \<Rightarrow> event list" where
  "step_events m = [Forward (Version m), Create (row_of m)]"

text \<open>The registry from its first entry through the first entry of the target version.\<close>

definition through :: "int64 \<Rightarrow> 's Migration list \<Rightarrow> 's Migration list" where
  "through target ms =
     takeWhile (\<lambda>m. Version m \<noteq> target) ms @ take 1 (dropWhile (\<lambda>m. Version m \<noteq> target) ms)"

text \<open>
  The history as \<^verbatim>\<open>Up\<close> holds it after the read: the rows ascending by version, each
  marked stored; and the version \<^verbatim>\<open>Up\<close> starts from, that of the last of them.
\<close>

definition history_of :: "'s db \<Rightarrow> 's Migration list" where
  "history_of d =
     map (\<lambda>r. (loaded r)\<lparr>Stored := True\<rparr>) (sort_key (\<lambda>r. sint (row_version r)) (table d))"

definition pre_version :: "'s db \<Rightarrow> int64" where
  "pre_version d =
     (if length (history_of d) > 0 then Version (history_of d ! (length (history_of d) - 1)) else 0)"


text \<open>The version of an entry as a signed integer.\<close>

abbreviation ver :: "'s Migration \<Rightarrow> int" where
  "ver m \<equiv> sint (Version m)"

text \<open>
  How many registry entries the merge may consume: the length of the longest prefix of
  the registry whose versions are under the bound.
\<close>

definition below :: "'s Migration list \<Rightarrow> int64 \<Rightarrow> nat" where
  "below R mx = length (takeWhile (\<lambda>r. ver r < sint mx) R)"

subsection \<open>Sample inputs\<close>

text \<open>
  Modelled from the spec: \<^verbatim>\<open>migration.DummyUpDown\<close>, the no-op procedure of the
  sentinel (the source names it and declares it elsewhere).
\<close>

definition DummyUpDown :: "'s ApplyFunc" where
  "DummyUpDown s = (None, s)"

text \<open>A registry descriptor whose procedures do nothing, and a record as \<^verbatim>\<open>Up\<close> loads it.\<close>

definition descriptor :: "int64 \<Rightarrow> string \<Rightarrow> 's Migration" where
  "descriptor v n =
     \<lparr>Version = v, Name = n, Up = Some DummyUpDown, Down = Some DummyUpDown, Stored = False\<rparr>"

definition applied_record :: "int64 \<Rightarrow> string \<Rightarrow> 's Migration" where
  "applied_record v n = \<lparr>Version = v, Name = n, Up = None, Down = None, Stored = True\<rparr>"

text \<open>A descriptor whose forward procedure counts its calls in a schema of type \<open>nat\<close>.\<close>

definition counting :: "int64 \<Rightarrow> string \<Rightarrow> nat Migration" where
  "counting v n =
     \<lparr>Version = v, Name = n, Up = Some (\<lambda>s. (None, Suc s)), Down = Some (\<lambda>s. (None, s - 1)),
      Stored = False\<rparr>"

text \<open>A descriptor whose forward procedure fails.\<close>

definition failing :: "int64 \<Rightarrow> string \<Rightarrow> nat Migration" where
  "failing v n =
     \<lparr>Version = v, Name = n, Up = Some (\<lambda>s. (Some (ErrProcedure 7), s)), Down = Some DummyUpDown,
      Stored = False\<rparr>"

definition no_faults :: faults where
  "no_faults op = False"

text \<open>
  A store in which exactly the insert of the row \<open>r\<close> fails, and a database with a schema
  of type \<open>nat\<close>.
\<close>

definition insert_faults :: "row \<Rightarrow> faults" where
  "insert_faults r op = (op = OpCreate r)"

definition sample_db :: "row list \<Rightarrow> nat db" where
  "sample_db rs = \<lparr>table = rs, schema = 0, journal = []\<rparr>"

section \<open>Comparison\<close>

lemma Less_iff: "Less a b \<longleftrightarrow> sint (Version a) < sint (Version b)"
  by (simp add: Less_def CompareMigrations_def)

lemma not_Less_eq:
  assumes "\<not> Less a b" and "\<not> Less b a"
  shows "Version a = Version b"
proof -
  from assms have "sint (Version a) = sint (Version b)"
    by (simp add: Less_iff)
  then show ?thesis by (rule signed_word_eqI)
qed

section \<open>mergeMigrations\<close>

text \<open>
  C1.  Applied versions 1 and 5, registry version 3, target unset: the inputs are
  ascending, free of duplicates and disjoint, so the merge should be 1, 3, 5.  The
  second comparison reads \<^verbatim>\<open>applied[j]\<close> (version 1) where \<^verbatim>\<open>applied[i]\<close> (version 5) is
  meant, takes the branch for equal versions, and the registry entry 3 is lost.
\<close>

theorem merge_loses_registry_entry:
  "mergeMigrations
     [applied_record 1 ''-'', applied_record 5 ''e'' :: unit Migration]
     [descriptor 3 ''c''] (- 1)
   = Inr [applied_record 1 ''-'', applied_record 5 ''e'']"
  by (simp add: mergeMigrations_def mergeMax_def mergeLoop1.simps mergeLoop2.simps
      mergeLoop3.simps Less_iff applied_record_def descriptor_def)

text \<open>
  C2.  Applied versions 1 and 3, registry versions 1, 2, 3, target unset: both inputs are
  ascending.  After the registry entry 2 is emitted the cursor \<open>j\<close> is 2, and the read of
  \<^verbatim>\<open>applied[j]\<close> is out of range: the merge panics.
\<close>

theorem merge_index_out_of_range:
  "mergeMigrations
     [applied_record 1 ''-'', applied_record 3 ''c'' :: unit Migration]
     [descriptor 1 ''-'', descriptor 2 ''b'', descriptor 3 ''c''] (- 1)
   = Inl IndexOutOfRange"
  by (simp add: mergeMigrations_def mergeMax_def mergeLoop1.simps mergeLoop2.simps
      mergeLoop3.simps Less_iff applied_record_def descriptor_def)

text \<open>
  C3.  The same inputs with the target set to 3: the merge panics in the same read, so it
  yields no sequence, and the applied versions 1 and 3 are included in nothing.  A merge
  that does return keeps both promises (\<open>merge_contents_target\<close> below).
\<close>

theorem merge_with_target_index_out_of_range:
  "mergeMigrations
     [applied_record 1 ''-'', applied_record 3 ''c'' :: unit Migration]
     [descriptor 1 ''-'', descriptor 2 ''b'', descriptor 3 ''c''] 3
   = Inl IndexOutOfRange"
  by (simp add: mergeMigrations_def mergeMax_def mergeLoop1.simps mergeLoop2.simps
      mergeLoop3.simps Less_iff applied_record_def descriptor_def)

subsection \<open>The loops of the merge\<close>

lemma below_le: "below R mx \<le> length R"
  by (simp add: below_def length_takeWhile_le)

lemma guard_iff:
  assumes "j \<le> below R mx"
  shows "(j < length R \<and> (length R = 0 \<or> ver (R ! j) < sint mx)) \<longleftrightarrow> j < below R mx"
proof (cases "j < below R mx")
  case True
  then have "ver (R ! j) < sint mx"
    unfolding below_def
    by (metis (no_types, lifting) nth_mem set_takeWhileD takeWhile_nth)
  with True below_le[of R mx] show ?thesis by auto
next
  case False
  with assms have j: "j = below R mx" by simp
  have "\<not> ver (R ! j) < sint mx" if "j < length R"
    using that nth_length_takeWhile[of "\<lambda>r. ver r < sint mx" R] unfolding j below_def by simp
  with False show ?thesis by auto
qed

lemma loop1_exit:
  "j \<le> below R mx \<Longrightarrow> \<not> (i < length A \<and> j < below R mx) \<Longrightarrow>
   mergeLoop1 A R mx i j acc = Inr (i, j, acc)"
  using guard_iff[of j R mx] by (subst mergeLoop1.simps) auto

lemma loop1_step:
  assumes "j \<le> below R mx" and "i < length A" and "j < below R mx"
  shows "mergeLoop1 A R mx i j acc =
     (if ver (A ! i) < ver (R ! j) then mergeLoop1 A R mx (i + 1) j (acc @ [A ! i])
      else if j < length A
      then (if ver (R ! j) < ver (A ! j) then mergeLoop1 A R mx i (j + 1) (acc @ [R ! j])
            else mergeLoop1 A R mx (i + 1) (j + 1) (acc @ [A ! i]))
      else Inl IndexOutOfRange)"
  using guard_iff[of j R mx] assms
  by (subst mergeLoop1.simps) (simp add: Less_iff)

lemma loop2_eq: "mergeLoop2 A i acc = acc @ drop i A"
proof (induction A i acc rule: mergeLoop2.induct)
  case (1 A i acc)
  show ?case
  proof (cases "i < length A")
    case True
    with 1 show ?thesis
      by (subst mergeLoop2.simps) (simp add: Cons_nth_drop_Suc)
  next
    case False
    then show ?thesis by (subst mergeLoop2.simps) simp
  qed
qed

lemma loop3_eq:
  "j \<le> below R mx \<Longrightarrow> mergeLoop3 R mx j acc = acc @ drop j (take (below R mx) R)"
proof (induction R mx j acc rule: mergeLoop3.induct)
  case (1 R mx j acc)
  show ?case
  proof (cases "j < below R mx")
    case True
    then have g: "j < length R \<and> (length R = 0 \<or> ver (R ! j) < sint mx)"
      using guard_iff[OF "1.prems"] by simp
    have "drop j (take (below R mx) R) = R ! j # drop (Suc j) (take (below R mx) R)"
      using True below_le[of R mx] by (simp add: Cons_nth_drop_Suc[symmetric])
    moreover have "mergeLoop3 R mx (j + 1) (acc @ [R ! j])
        = (acc @ [R ! j]) @ drop (j + 1) (take (below R mx) R)"
      using "1.IH"[OF g] True by simp
    ultimately show ?thesis
      using g by (subst mergeLoop3.simps) simp
  next
    case False
    then have g: "\<not> (j < length R \<and> (length R = 0 \<or> ver (R ! j) < sint mx))"
      using guard_iff[OF "1.prems"] by simp
    from False "1.prems" have "drop j (take (below R mx) R) = []" by simp
    then show ?thesis using g by (subst mergeLoop3.simps) auto
  qed
qed

text \<open>Which registry entries the first loop consumes, and how.\<close>

lemma loop1_consumed:
  assumes "mergeLoop1 A R mx i j acc = Inr (i', j', out)" and "j \<le> below R mx"
  shows "j \<le> j' \<and> j' \<le> below R mx \<and> set acc \<subseteq> set out \<and>
     (\<forall>k. j \<le> k \<and> k < j' \<longrightarrow>
        R ! k \<in> set out \<or> (k < length A \<and> ver (A ! k) \<le> ver (R ! k)))"
  using assms
proof (induction A R mx i j acc rule: mergeLoop1.induct)
  case (1 A R mx i j acc)
  note res = "1.prems"(1) and jb = "1.prems"(2)
  show ?case
  proof (cases "i < length A \<and> j < below R mx")
    case False
    with res jb show ?thesis by (simp add: loop1_exit)
  next
    case True
    then have g: "i < length A \<and> j < length R \<and> (length R = 0 \<or> ver (R ! j) < sint mx)"
      using guard_iff[OF jb] by simp
    note st = loop1_step[OF jb, of i A acc] 
    show ?thesis
    proof (cases "ver (A ! i) < ver (R ! j)")
      case b1: True
      with True st res have r: "mergeLoop1 A R mx (i + 1) j (acc @ [A ! i]) = Inr (i', j', out)"
        by simp
      from "1.IH"(1)[OF g _ r jb] b1 show ?thesis by (simp add: Less_iff)
    next
      case nb1: False
      show ?thesis
      proof (cases "j < length A")
        case False
        with True st res nb1 show ?thesis by simp
      next
        case ja: True
        show ?thesis
        proof (cases "ver (R ! j) < ver (A ! j)")
          case b2: True
          with True st res nb1 ja
          have r: "mergeLoop1 A R mx i (j + 1) (acc @ [R ! j]) = Inr (i', j', out)" by simp
          have jb': "j + 1 \<le> below R mx" using True by simp
          from "1.IH"(2)[OF g _ ja _ r jb'] nb1 b2
          have ih: "j + 1 \<le> j' \<and> j' \<le> below R mx \<and> set (acc @ [R ! j]) \<subseteq> set out \<and>
            (\<forall>k. j + 1 \<le> k \<and> k < j' \<longrightarrow>
              R ! k \<in> set out \<or> (k < length A \<and> ver (A ! k) \<le> ver (R ! k)))"
            by (simp add: Less_iff)
          then have rj: "R ! j \<in> set out" by auto
          have "k < length A \<and> ver (A ! k) \<le> ver (R ! k) \<or> R ! k \<in> set out"
            if "j \<le> k" "k < j'" for k
          proof (cases "k = j")
            case True
            with rj show ?thesis by simp
          next
            case False
            with that have "j + 1 \<le> k" by simp
            with ih that show ?thesis by blast
          qed
          with ih show ?thesis by auto
        next
          case nb2: False
          with True st res nb1 ja
          have r: "mergeLoop1 A R mx (i + 1) (j + 1) (acc @ [A ! i]) = Inr (i', j', out)" by simp
          have jb': "j + 1 \<le> below R mx" using True by simp
          from "1.IH"(3)[OF g _ ja _ r jb'] nb1 nb2
          have ih: "j + 1 \<le> j' \<and> j' \<le> below R mx \<and> set (acc @ [A ! i]) \<subseteq> set out \<and>
            (\<forall>k. j + 1 \<le> k \<and> k < j' \<longrightarrow>
              R ! k \<in> set out \<or> (k < length A \<and> ver (A ! k) \<le> ver (R ! k)))"
            by (simp add: Less_iff)
          have "k < length A \<and> ver (A ! k) \<le> ver (R ! k) \<or> R ! k \<in> set out"
            if "j \<le> k" "k < j'" for k
          proof (cases "k = j")
            case True
            with ja nb2 show ?thesis by simp
          next
            case False
            with that have "j + 1 \<le> k" by simp
            with ih that show ?thesis by blast
          qed
          with ih show ?thesis by auto
        qed
      qed
    qed
  qed
qed

subsection \<open>What a merge that returns contains\<close>

text \<open>
  Apart from the panic, the bound and the applied entries behave as designed: a merge that
  returns holds every applied entry, and any other entry is a registry entry under the
  bound, for every input, sorted or not.
\<close>

lemma sint_succ_le: "sint (t + 1) \<le> sint t + 1" for t :: int64
proof -
  have "- (2 ^ 63) \<le> sint t + 1" using sint_ge[of t] by simp
  then have "signed_take_bit 63 (sint t + 1) \<le> sint t + 1"
    by (simp add: signed_take_bit_int_less_eq_self_iff)
  then show ?thesis by (simp add: sint_word_ariths)
qed

lemma loop1_contents:
  assumes "mergeLoop1 A R mx i j acc = Inr (i', j', out)" and "j \<le> below R mx"
  shows "set out \<subseteq> set acc \<union> set A \<union> set (take (below R mx) R)
       \<and> set (take i' A) \<subseteq> set out \<union> set (take i A)"
  using assms
proof (induction A R mx i j acc rule: mergeLoop1.induct)
  case (1 A R mx i j acc)
  note res = "1.prems"(1) and jb = "1.prems"(2)
  show ?case
  proof (cases "i < length A \<and> j < below R mx")
    case False
    with res jb show ?thesis by (auto simp: loop1_exit)
  next
    case True
    then have g: "i < length A \<and> j < length R \<and> (length R = 0 \<or> ver (R ! j) < sint mx)"
      using guard_iff[OF jb] by simp
    note st = loop1_step[OF jb, of i A acc]
    have ai: "A ! i \<in> set A" using True by simp
    have rj: "R ! j \<in> set (take (below R mx) R)"
      using True below_le[of R mx] by (simp add: in_set_conv_nth) (metis nth_take)
    have tk: "set (take (i + 1) A) = set (take i A) \<union> {A ! i}"
      using True by (simp add: take_Suc_conv_app_nth)
    have jb': "j + 1 \<le> below R mx" using True by simp
    show ?thesis
    proof (cases "ver (A ! i) < ver (R ! j)")
      case b1: True
      with True st res have r: "mergeLoop1 A R mx (i + 1) j (acc @ [A ! i]) = Inr (i', j', out)"
        by simp
      from "1.IH"(1)[OF g _ r jb] b1
      have ih: "set out \<subseteq> set (acc @ [A ! i]) \<union> set A \<union> set (take (below R mx) R)"
        "set (take i' A) \<subseteq> set out \<union> set (take (i + 1) A)"
        by (simp_all add: Less_iff)
      from loop1_consumed[OF r jb] have "A ! i \<in> set out" by auto
      with ih ai show ?thesis unfolding tk by auto
    next
      case nb1: False
      show ?thesis
      proof (cases "j < length A")
        case False
        with True st res nb1 show ?thesis by simp
      next
        case ja: True
        show ?thesis
        proof (cases "ver (R ! j) < ver (A ! j)")
          case b2: True
          with True st res nb1 ja
          have r: "mergeLoop1 A R mx i (j + 1) (acc @ [R ! j]) = Inr (i', j', out)" by simp
          from "1.IH"(2)[OF g _ ja _ r jb'] nb1 b2
          have ih: "set out \<subseteq> set (acc @ [R ! j]) \<union> set A \<union> set (take (below R mx) R)"
            "set (take i' A) \<subseteq> set out \<union> set (take i A)"
            by (simp_all add: Less_iff)
          with rj show ?thesis by auto
        next
          case nb2: False
          with True st res nb1 ja
          have r: "mergeLoop1 A R mx (i + 1) (j + 1) (acc @ [A ! i]) = Inr (i', j', out)" by simp
          from "1.IH"(3)[OF g _ ja _ r jb'] nb1 nb2
          have ih: "set out \<subseteq> set (acc @ [A ! i]) \<union> set A \<union> set (take (below R mx) R)"
            "set (take i' A) \<subseteq> set out \<union> set (take (i + 1) A)"
            by (simp_all add: Less_iff)
          from loop1_consumed[OF r jb'] have "A ! i \<in> set out" by auto
          with ih ai show ?thesis unfolding tk by auto
        qed
      qed
    qed
  qed
qed

lemma merge_contents:
  assumes "mergeMigrations A R target = Inr M"
  shows "set A \<subseteq> set M
     \<and> (\<forall>m \<in> set M. m \<in> set A \<or> (m \<in> set R \<and> ver m < sint (mergeMax R target)))"
proof -
  let ?mx = "mergeMax R target"
  from assms obtain i' j' out where l1: "mergeLoop1 A R ?mx 0 0 [] = Inr (i', j', out)"
    and Meq0: "M = mergeLoop3 R ?mx j' (mergeLoop2 A i' out)"
    by (auto simp: mergeMigrations_def Let_def split: sum.splits prod.splits)
  from loop1_consumed[OF l1] have j'nb: "j' \<le> below R ?mx" by simp
  have Meq: "M = out @ drop i' A @ drop j' (take (below R ?mx) R)"
    unfolding Meq0 by (simp add: loop2_eq loop3_eq[OF j'nb])
  from loop1_contents[OF l1]
  have c: "set out \<subseteq> set A \<union> set (take (below R ?mx) R)" "set (take i' A) \<subseteq> set out"
    by simp_all
  have "set A = set (take i' A) \<union> set (drop i' A)"
    by (metis append_take_drop_id set_append)
  with c(2) have 1: "set A \<subseteq> set M" unfolding Meq by auto
  have u: "m \<in> set R \<and> ver m < sint ?mx" if "m \<in> set (take (below R ?mx) R)" for m
  proof -
    have "take (below R ?mx) R = takeWhile (\<lambda>r. ver r < sint ?mx) R"
      unfolding below_def by (rule takeWhile_eq_take[symmetric])
    with that show ?thesis by (auto dest: set_takeWhileD)
  qed
  have "m \<in> set A \<or> (m \<in> set R \<and> ver m < sint ?mx)" if "m \<in> set M" for m
  proof -
    from that consider "m \<in> set out" | "m \<in> set (drop i' A)"
      | "m \<in> set (drop j' (take (below R ?mx) R))" unfolding Meq by auto
    then show ?thesis
    proof cases
      case 1 with c(1) u show ?thesis by blast
    next
      case 2 then show ?thesis by (auto dest: in_set_dropD)
    next
      case 3 then have "m \<in> set (take (below R ?mx) R)" by (rule in_set_dropD)
      with u show ?thesis by blast
    qed
  qed
  with 1 show ?thesis by blast
qed

lemma merge_contents_target:
  assumes "mergeMigrations A R target = Inr M" and "target \<noteq> - 1"
  shows "set A \<subseteq> set M
     \<and> (\<forall>m \<in> set M. m \<in> set A \<or> (m \<in> set R \<and> ver m \<le> sint target))"
proof -
  have "ver m \<le> sint target" if "m \<in> set R" "ver m < sint (mergeMax R target)" for m
  proof -
    from that(1) have "R \<noteq> []" by auto
    with assms(2) have "mergeMax R target = target + 1" by (simp add: mergeMax_def)
    with that(2) sint_succ_le[of target] show ?thesis by simp
  qed
  with merge_contents[OF assms(1)] show ?thesis by blast
qed

section \<open>correlateMigrations\<close>

text \<open>The cursor loop reads the suffixes \<open>drop i applied\<close> and \<open>drop j actual\<close>.\<close>

lemma correlateLoop_Rec:
  "correlateLoop applied actual i j acc = correlateRec (drop i applied) (drop j actual) acc"
proof (induction applied actual i j acc rule: correlateLoop.induct)
  case (1 applied actual i j acc)
  show ?case
  proof (cases "i < length applied")
    case False
    then show ?thesis by (simp add: correlateLoop.simps[of applied actual i j acc])
  next
    case i: True
    show ?thesis
    proof (cases "j < length actual")
      case False
      with i show ?thesis
        by (simp add: correlateLoop.simps[of applied actual i j acc] Cons_nth_drop_Suc[symmetric])
    next
      case j: True
      from i j have d: "drop i applied = applied ! i # drop (Suc i) applied"
        "drop j actual = actual ! j # drop (Suc j) actual"
        by (simp_all add: Cons_nth_drop_Suc)
      show ?thesis
        using i j 1 by (simp add: correlateLoop.simps[of applied actual i j acc] d)
    qed
  qed
qed

text \<open>
  On strictly ascending inputs the loop returns the registry descriptors of the applied
  versions that come before the first applied version absent from the registry, then
  that applied entry if there is one, and it fails exactly when there is one.
\<close>

lemma correlateRec_char:
  "sorted_wrt Less as \<Longrightarrow> sorted_wrt Less rs \<Longrightarrow>
   correlateRec as rs acc =
     (acc @ matched (takeWhile (present rs) as) rs @ take 1 (dropWhile (present rs) as),
      if dropWhile (present rs) as = [] then None else Some ErrorSomeMigrationsAreAbsent)"
proof (induction as rs acc rule: correlateRec.induct)
  case (1 rs acc)
  then show ?case by (simp add: matched_def present_def)
next
  case (2 a as acc)
  then show ?case by (simp add: matched_def present_def)
next
  case (3 a as r rs acc)
  show ?case
  proof (cases "Less a r")
    case True
    with 3 have "\<not> present (r # rs) a"
      by (auto simp: present_def Less_iff)
    with True show ?thesis by (simp add: matched_def present_def)
  next
    case nar: False
    show ?thesis
    proof (cases "Less r a")
      case True
      have ne: "\<forall>x \<in> set (a # as). Version x \<noteq> Version r"
        using True 3(3) by (auto simp: Less_iff)
      then have pe: "\<forall>x \<in> set (a # as). present (r # rs) x = present rs x"
        by (auto simp: present_def)
      have tw: "takeWhile (present (r # rs)) (a # as) = takeWhile (present rs) (a # as)"
        by (rule takeWhile_cong) (use pe in auto)
      have dw: "dropWhile (present (r # rs)) (a # as) = dropWhile (present rs) (a # as)"
        by (rule dropWhile_cong) (use pe in auto)
      have "\<not> present (takeWhile (present rs) (a # as)) r"
        using ne by (auto simp: present_def dest!: set_takeWhileD) 
      then have mt: "matched (takeWhile (present rs) (a # as)) (r # rs)
              = matched (takeWhile (present rs) (a # as)) rs"
        by (simp add: matched_def)
      from 3 True nar have "correlateRec (a # as) (r # rs) acc = correlateRec (a # as) rs acc" by simp
      also have "\<dots> = (acc @ matched (takeWhile (present rs) (a # as)) rs @ take 1 (dropWhile (present rs) (a # as)),
      if dropWhile (present rs) (a # as) = [] then None else Some ErrorSomeMigrationsAreAbsent)"
        using 3 True nar by simp
      finally show ?thesis unfolding tw dw mt .
    next
      case False
      with nar have eq: "Version a = Version r" by (rule not_Less_eq)
      have ne: "\<forall>x \<in> set as. Version x \<noteq> Version r"
        using eq 3(3) by (auto simp: Less_iff)
      then have pe: "\<forall>x \<in> set as. present (r # rs) x = present rs x"
        by (auto simp: present_def)
      have pa: "present (r # rs) a" using eq by (simp add: present_def)
      have tw: "takeWhile (present (r # rs)) (a # as) = a # takeWhile (present rs) as"
        using pa takeWhile_cong[OF refl, of as "present (r # rs)" "present rs"] pe by simp
      have dw: "dropWhile (present (r # rs)) (a # as) = dropWhile (present rs) as"
        using pa dropWhile_cong[OF refl, of as "present (r # rs)" "present rs"] pe by simp
      have "\<forall>y \<in> set rs. Version y \<noteq> Version a"
        using eq 3(4) by (auto simp: Less_iff)
      then have "\<forall>y \<in> set rs. present (a # takeWhile (present rs) as) y = present (takeWhile (present rs) as) y"
        by (auto simp: present_def)
      then have "filter (present (a # takeWhile (present rs) as)) rs = filter (present (takeWhile (present rs) as)) rs"
        by (intro filter_cong) auto
      moreover have "present (a # takeWhile (present rs) as) r" using eq by (simp add: present_def)
      ultimately have mt: "matched (a # takeWhile (present rs) as) (r # rs)
              = r # matched (takeWhile (present rs) as) rs"
        by (simp add: matched_def)
      from False nar have "correlateRec (a # as) (r # rs) acc = correlateRec as rs (acc @ [r])" by simp
      also have "\<dots> = ((acc @ [r]) @ matched (takeWhile (present rs) as) rs @ take 1 (dropWhile (present rs) as),
      if dropWhile (present rs) as = [] then None else Some ErrorSomeMigrationsAreAbsent)"
        using 3 False nar by simp
      finally show ?thesis unfolding tw dw mt by simp
    qed
  qed
qed

lemma correlateMigrations_char:
  assumes "sorted_wrt Less A" and "sorted_wrt Less R"
  shows "correlateMigrations A R =
     (matched (takeWhile (present R) A) R @ take 1 (dropWhile (present R) A),
      if dropWhile (present R) A = [] then None else Some ErrorSomeMigrationsAreAbsent)"
  using correlateRec_char[OF assms, of "[]"]
  by (simp add: correlateMigrations_def correlateLoop_Rec)

lemma all_present_iff: "(\<forall>x \<in> set A. present R x) \<longleftrightarrow> Version ` set A \<subseteq> Version ` set R"
  by (auto simp: present_def)

text \<open>
  C4.  For applied records \<open>A\<close> and a registry \<open>R\<close>, both ascending by version (versions
  are keys, so ascending is strict): \<^verbatim>\<open>correlateMigrations\<close> returns no error exactly when
  every version of \<open>A\<close> occurs in \<open>R\<close>, and then its result is the list of the descriptors
  of \<open>R\<close> whose version occurs in \<open>A\<close>, in ascending version order.
\<close>

theorem correlate_succeeds_iff_subset:
  assumes "sorted_wrt Less A" and "sorted_wrt Less R"
  shows "(snd (correlateMigrations A R) = None \<longleftrightarrow> Version ` set A \<subseteq> Version ` set R)
       \<and> (Version ` set A \<subseteq> Version ` set R \<longrightarrow>
            correlateMigrations A R = (filter (\<lambda>r. Version r \<in> Version ` set A) R, None)
          \<and> sorted_wrt Less (fst (correlateMigrations A R)))"
proof -
  note c = correlateMigrations_char[OF assms]
  have 1: "snd (correlateMigrations A R) = None \<longleftrightarrow> Version ` set A \<subseteq> Version ` set R"
    unfolding c by (simp add: all_present_iff)
  have 2: "correlateMigrations A R = (filter (\<lambda>r. Version r \<in> Version ` set A) R, None)"
    if s: "Version ` set A \<subseteq> Version ` set R"
  proof -
    from s have d: "dropWhile (present R) A = []" by (simp add: all_present_iff)
    then have t: "takeWhile (present R) A = A"
      by (metis takeWhile_dropWhile_id append_Nil2)
    show ?thesis unfolding c d t by (simp add: matched_def present_def[abs_def])
  qed
  have 3: "sorted_wrt Less (fst (correlateMigrations A R))"
    if s: "Version ` set A \<subseteq> Version ` set R"
    using 2[OF s] assms(2) by (simp add: sorted_wrt_filter)
  from 1 2 3 show ?thesis by blast
qed

text \<open>
  C5.  For ascending \<open>A\<close> and \<open>R\<close>, if \<open>A\<close> holds a version that \<open>R\<close> lacks, then
  \<^verbatim>\<open>correlateMigrations\<close> fails with \<^verbatim>\<open>ErrorSomeMigrationsAreAbsent\<close>, and the list it
  returns starts with the correlated prefix: the registry descriptors matching the
  applied entries before the first mismatching one (which the source appends last).
\<close>

theorem correlate_fails_with_prefix:
  assumes "sorted_wrt Less A" and "sorted_wrt Less R"
    and "\<not> Version ` set A \<subseteq> Version ` set R"
  shows "correlateMigrations A R =
     (matched (takeWhile (present R) A) R @ [hd (dropWhile (present R) A)],
      Some ErrorSomeMigrationsAreAbsent)"
proof -
  from assms(3) have d: "dropWhile (present R) A \<noteq> []" by (simp add: all_present_iff)
  then have "take 1 (dropWhile (present R) A) = [hd (dropWhile (present R) A)]"
    by (cases "dropWhile (present R) A") simp_all
  with d show ?thesis
    unfolding correlateMigrations_char[OF assms(1,2)] by simp
qed


theorem correlate_succeeds_iff_subset_witness:
  "sorted_wrt Less [applied_record 1 ''-'', applied_record 2 ''b'' :: unit Migration]
   \<and> sorted_wrt Less [descriptor 1 ''-'', descriptor 2 ''b'', descriptor 3 ''c'' :: unit Migration]
   \<and> correlateMigrations [applied_record 1 ''-'', applied_record 2 ''b'' :: unit Migration]
        [descriptor 1 ''-'', descriptor 2 ''b'', descriptor 3 ''c'']
       = ([descriptor 1 ''-'', descriptor 2 ''b''], None)"
  using correlate_succeeds_iff_subset
    [of "[applied_record 1 ''-'', applied_record 2 ''b'' :: unit Migration]"
        "[descriptor 1 ''-'', descriptor 2 ''b'', descriptor 3 ''c'']"]
  by (simp add: Less_iff applied_record_def descriptor_def)

theorem correlate_fails_with_prefix_witness:
  "sorted_wrt Less [applied_record 1 ''-'', applied_record 2 ''b'', applied_record 4 ''d'', applied_record 5 ''e'' :: unit Migration]
   \<and> sorted_wrt Less [descriptor 1 ''-'', descriptor 2 ''b'', descriptor 3 ''c'', descriptor 5 ''e'' :: unit Migration]
   \<and> correlateMigrations [applied_record 1 ''-'', applied_record 2 ''b'', applied_record 4 ''d'', applied_record 5 ''e'' :: unit Migration]
        [descriptor 1 ''-'', descriptor 2 ''b'', descriptor 3 ''c'', descriptor 5 ''e'']
       = ([descriptor 1 ''-'', descriptor 2 ''b'', applied_record 4 ''d''], Some ErrorSomeMigrationsAreAbsent)"
  using correlate_fails_with_prefix
    [of "[applied_record 1 ''-'', applied_record 2 ''b'', applied_record 4 ''d'', applied_record 5 ''e'' :: unit Migration]"
        "[descriptor 1 ''-'', descriptor 2 ''b'', descriptor 3 ''c'', descriptor 5 ''e'']"]
  by (simp add: Less_iff applied_record_def descriptor_def matched_def present_def)

section \<open>The store operations\<close>

lemma create_table:
  "create flt r d = (None, d') \<Longrightarrow>
     table d' = table d @ [r] \<and> journal d' = journal d @ [Create r] \<and> schema d' = schema d
     \<and> row_version r \<notin> row_version ` set (table d)"
  by (auto simp: create_def Let_def split: if_splits)

lemma create_failed:
  "create flt r d = (Some e, d') \<Longrightarrow>
     table d' = table d \<and> journal d' = journal d @ [Create r] \<and> schema d' = schema d"
  by (auto simp: create_def Let_def split: if_splits)

section \<open>Up\<close>

text \<open>
  When the loop of \<^verbatim>\<open>Up\<close> returns an error, the merged list splits at the entry \<open>m\<close> that
  failed: the pending entries before it were run and recorded, nothing after it was
  touched, and the journal ends with the failed call.
\<close>

lemma upLoop_error:
  "upLoop flt ms nv d = Inr ((nv', Some e), d') \<Longrightarrow>
   \<exists>done m rest. ms = done @ m # rest \<and> \<not> Stored m
     \<and> table d' = table d @ map row_of (pending done)
     \<and> (journal d' = journal d @ concat (map step_events (pending done)) @ [Forward (Version m)]
          \<and> nv' = last (nv # map Version (pending done))
        \<or> journal d' = journal d @ concat (map step_events (pending done)) @ step_events m
          \<and> nv' = Version m)"
proof (induction ms arbitrary: nv d)
  case Nil
  then show ?case by simp
next
  case (Cons m0 ms)
  show ?case
  proof (cases "Stored m0")
    case True
    with Cons.prems have "upLoop flt ms nv d = Inr ((nv', Some e), d')" by simp
    from Cons.IH[OF this] obtain dn m rest where
      h: "ms = dn @ m # rest" "\<not> Stored m" "table d' = table d @ map row_of (pending dn)"
      "journal d' = journal d @ concat (map step_events (pending dn)) @ [Forward (Version m)]
          \<and> nv' = last (nv # map Version (pending dn))
        \<or> journal d' = journal d @ concat (map step_events (pending dn)) @ step_events m
          \<and> nv' = Version m"
      by blast
    have p: "pending (m0 # dn) = pending dn" using True by (simp add: pending_def)
    have "m0 # ms = (m0 # dn) @ m # rest" using h(1) by simp
    with h(2,3,4) p show ?thesis by metis
  next
    case ns: False
    show ?thesis
    proof (cases "Up m0")
      case None
      with ns Cons.prems show ?thesis by simp
    next
      case (Some f)
      obtain r s where f: "f (schema d) = (r, s)" by (cases "f (schema d)")
      let ?d1 = "d\<lparr>journal := journal d @ [Forward (Version m0)], schema := s\<rparr>"
      show ?thesis
      proof (cases r)
        case (Some e')
        with ns \<open>Up m0 = Some f\<close> f Cons.prems
        have "nv' = nv" "d' = ?d1" by (simp_all add: Let_def)
        then have "m0 # ms = [] @ m0 # ms \<and> \<not> Stored m0
           \<and> table d' = table d @ map row_of (pending [])
           \<and> journal d' = journal d @ concat (map step_events (pending [])) @ [Forward (Version m0)]
           \<and> nv' = last (nv # map Version (pending []))"
          using ns by (simp add: pending_def)
        then show ?thesis by blast
      next
        case None
        obtain r2 d2 where c: "create flt (row_of m0) ?d1 = (r2, d2)"
          by (cases "create flt (row_of m0) ?d1")
        show ?thesis
        proof (cases r2)
          case (Some e')
          with ns \<open>Up m0 = Some f\<close> f None c Cons.prems
          have "nv' = Version m0" "d' = d2" by (simp_all add: Let_def)
          moreover from c Some have "table d2 = table d"
            "journal d2 = journal d @ [Forward (Version m0), Create (row_of m0)]"
            using create_failed[of flt "row_of m0" ?d1 e' d2] by simp_all
          ultimately have "m0 # ms = [] @ m0 # ms \<and> \<not> Stored m0
           \<and> table d' = table d @ map row_of (pending [])
           \<and> journal d' = journal d @ concat (map step_events (pending [])) @ step_events m0
           \<and> nv' = Version m0"
            using ns by (simp add: pending_def step_events_def)
          then show ?thesis by blast
        next
          case r2: None
          with ns \<open>Up m0 = Some f\<close> f None c Cons.prems
          have "upLoop flt ms (Version m0) d2 = Inr ((nv', Some e), d')" by (simp add: Let_def)
          from Cons.IH[OF this] obtain dn m rest where
            h: "ms = dn @ m # rest" "\<not> Stored m" "table d' = table d2 @ map row_of (pending dn)"
            "journal d' = journal d2 @ concat (map step_events (pending dn)) @ [Forward (Version m)]
                \<and> nv' = last (Version m0 # map Version (pending dn))
              \<or> journal d' = journal d2 @ concat (map step_events (pending dn)) @ step_events m
                \<and> nv' = Version m"
            by blast
          from c r2 have t2: "table d2 = table d @ [row_of m0]"
            "journal d2 = journal d @ step_events m0"
            using create_table[of flt "row_of m0" ?d1 d2] by (simp_all add: step_events_def)
          have p: "pending (m0 # dn) = m0 # pending dn" using ns by (simp add: pending_def)
          have "m0 # ms = (m0 # dn) @ m # rest" using h(1) by simp
          moreover have "table d' = table d @ map row_of (pending (m0 # dn))"
            using h(3) t2 p by simp
          moreover have "journal d' = journal d @ concat (map step_events (pending (m0 # dn))) @ [Forward (Version m)]
                \<and> nv' = last (nv # map Version (pending (m0 # dn)))
              \<or> journal d' = journal d @ concat (map step_events (pending (m0 # dn))) @ step_events m
                \<and> nv' = Version m"
            using h(4) t2 p by auto
          ultimately show ?thesis using h(2) by blast
        qed
      qed
    qed
  qed
qed

lemma Migrator_Up_read_ok:
  "\<not> flt OpFind \<Longrightarrow>
   Migrator_Up flt migrations target d =
     (case mergeMigrations (history_of d) migrations target of
        Inl p \<Rightarrow> Inl p
      | Inr merged \<Rightarrow>
          (case upLoop flt merged (pre_version d) d of
             Inl p \<Rightarrow> Inl p
           | Inr ((newVersion, err), d') \<Rightarrow> Inr ((pre_version d, newVersion, err), d')))"
  unfolding Migrator_Up_def find_ordered_def history_of_def pre_version_def Let_def
  by simp

text \<open>A run of the loop without error: what it records, journals and reports.\<close>

lemma upLoop_run:
  "upLoop flt ms nv d = Inr ((nv', None), d') \<Longrightarrow>
   table d' = table d @ map row_of (pending ms)
   \<and> journal d' = journal d @ concat (map step_events (pending ms))
   \<and> nv' = last (nv # map Version (pending ms))"
proof (induction ms arbitrary: nv d)
  case Nil
  then show ?case by (simp add: pending_def)
next
  case (Cons m0 ms)
  show ?case
  proof (cases "Stored m0")
    case True
    with Cons.prems have "upLoop flt ms nv d = Inr ((nv', None), d')" by simp
    from Cons.IH[OF this]
    have ih: "table d' = table d @ map row_of (pending ms)"
      "journal d' = journal d @ concat (map step_events (pending ms))"
      "nv' = last (nv # map Version (pending ms))"
      by blast+
    have p: "pending (m0 # ms) = pending ms" using True by (simp add: pending_def)
    show ?thesis unfolding p using ih by blast
  next
    case ns: False
    show ?thesis
    proof (cases "Up m0")
      case None
      with ns Cons.prems show ?thesis by simp
    next
      case (Some f)
      obtain r s where f: "f (schema d) = (r, s)" by (cases "f (schema d)")
      let ?d1 = "d\<lparr>journal := journal d @ [Forward (Version m0)], schema := s\<rparr>"
      obtain r2 d2 where c: "create flt (row_of m0) ?d1 = (r2, d2)"
        by (cases "create flt (row_of m0) ?d1")
      from ns Some f c Cons.prems(1) have r: "r = None"
        by (cases r) (simp_all add: Let_def)
      from ns Some f c r Cons.prems(1) have r2: "r2 = None"
        by (cases r2) (simp_all add: Let_def)
      from ns Some f c r r2 Cons.prems(1)
      have u: "upLoop flt ms (Version m0) d2 = Inr ((nv', None), d')" by (simp add: Let_def)
      from create_table[of flt "row_of m0" ?d1 d2] c r2
      have t2: "table d2 = table d @ [row_of m0]"
        "journal d2 = journal d @ step_events m0"
        by (simp_all add: step_events_def)
      from Cons.IH[OF u]
      have ih: "table d' = table d2 @ map row_of (pending ms)"
        "journal d' = journal d2 @ concat (map step_events (pending ms))"
        "nv' = last (Version m0 # map Version (pending ms))"
        by blast+
      have p: "pending (m0 # ms) = m0 # pending ms" using ns by (simp add: pending_def)
      have "table d' = table d @ map row_of (m0 # pending ms)" using ih(1) t2(1) by simp
      moreover have "journal d' = journal d @ concat (map step_events (m0 # pending ms))"
        using ih(2) t2(2) by simp
      moreover have "nv' = last (nv # map Version (m0 # pending ms))" using ih(3) by simp
      ultimately show ?thesis unfolding p by blast
    qed
  qed
qed

text \<open>The loop over \<open>xs @ ys\<close> goes on with \<open>ys\<close> where a run of \<open>xs\<close> without error ends.\<close>

lemma upLoop_append:
  "upLoop flt xs nv d = Inr ((nv1, None), dm) \<Longrightarrow>
   upLoop flt (xs @ ys) nv d = upLoop flt ys nv1 dm"
proof (induction xs arbitrary: nv d)
  case Nil
  then show ?case by simp
next
  case (Cons m0 xs)
  show ?case
  proof (cases "Stored m0")
    case True
    with Cons.prems have "upLoop flt xs nv d = Inr ((nv1, None), dm)" by simp
    from Cons.IH[OF this] True show ?thesis by simp
  next
    case ns: False
    show ?thesis
    proof (cases "Up m0")
      case None
      with ns Cons.prems show ?thesis by simp
    next
      case (Some f)
      obtain r s where f: "f (schema d) = (r, s)" by (cases "f (schema d)")
      let ?d1 = "d\<lparr>journal := journal d @ [Forward (Version m0)], schema := s\<rparr>"
      obtain r2 d2 where c: "create flt (row_of m0) ?d1 = (r2, d2)"
        by (cases "create flt (row_of m0) ?d1")
      from ns Some f c Cons.prems(1) have r: "r = None"
        by (cases r) (simp_all add: Let_def)
      from ns Some f c r Cons.prems(1) have r2: "r2 = None"
        by (cases r2) (simp_all add: Let_def)
      from ns Some f c r r2 Cons.prems(1)
      have u: "upLoop flt xs (Version m0) d2 = Inr ((nv1, None), dm)" by (simp add: Let_def)
      from Cons.IH[OF u] ns Some f c r r2 show ?thesis by (simp add: Let_def)
    qed
  qed
qed

text \<open>
  C7 as the source has it.  Let the merged list be \<open>done @ m # rest\<close>, let the loop run the
  entries of \<open>done\<close> without error, ending in the database \<open>dm\<close> with \<^verbatim>\<open>newVersion\<close> at
  \<open>nv\<close>, and let \<open>m\<close> be pending with the forward procedure \<open>f\<close>.  Then the records of the
  pending entries of \<open>done\<close> are in the table of \<open>dm\<close>, \<open>nv\<close> is the version of the last of
  them (the version before the call if there is none), and:
  \<^item> if \<open>f\<close> fails with \<open>e\<close>, \<^verbatim>\<open>Up\<close> returns \<open>e\<close> with \<^verbatim>\<open>newVersion = nv\<close>; the database is
    \<open>dm\<close> with the forward call of \<open>m\<close> as last journal entry: no insert of \<open>m\<close>, nothing
    of \<open>rest\<close> attempted, nothing of \<open>done\<close> rolled back;
  \<^item> if \<open>f\<close> succeeds and the insert of the record of \<open>m\<close> fails with \<open>e\<close>, \<^verbatim>\<open>Up\<close> returns
    \<open>e\<close> with \<^verbatim>\<open>newVersion\<close> the version of \<open>m\<close>, whose record is not in the table; the
    journal ends with the forward call and the insert of \<open>m\<close>, and the table is that of
    \<open>dm\<close>.
\<close>

theorem up_failure_returns_immediately:
  assumes read: "\<not> flt OpFind"
    and merged: "mergeMigrations (history_of d) migrations target = Inr (done @ m # rest)"
    and before: "upLoop flt done (pre_version d) d = Inr ((nv, None), dm)"
    and pend: "\<not> Stored m" and proc: "Up m = Some f"
  shows "table dm = table d @ map row_of (pending done)
     \<and> journal dm = journal d @ concat (map step_events (pending done))
     \<and> nv = last (pre_version d # map Version (pending done))
     \<and> (\<forall>e s. f (schema dm) = (Some e, s) \<longrightarrow>
          Migrator_Up flt migrations target d
            = Inr ((pre_version d, nv, Some e),
                   dm\<lparr>journal := journal dm @ [Forward (Version m)], schema := s\<rparr>))
     \<and> (\<forall>e s d2. f (schema dm) = (None, s)
            \<and> create flt (row_of m)
                 (dm\<lparr>journal := journal dm @ [Forward (Version m)], schema := s\<rparr>) = (Some e, d2)
          \<longrightarrow> Migrator_Up flt migrations target d = Inr ((pre_version d, Version m, Some e), d2)
            \<and> table d2 = table dm \<and> schema d2 = s
            \<and> journal d2 = journal dm @ step_events m)"
proof -
  note run = upLoop_run[OF before]
  have app: "upLoop flt (done @ m # rest) (pre_version d) d = upLoop flt (m # rest) nv dm"
    using before by (rule upLoop_append)
  have up: "Migrator_Up flt migrations target d =
      (case upLoop flt (m # rest) nv dm of
         Inl p \<Rightarrow> Inl p
       | Inr ((newVersion, err), d') \<Rightarrow> Inr ((pre_version d, newVersion, err), d'))"
    by (simp add: Migrator_Up_read_ok[of flt, OF read] merged app)
  have 1: "Migrator_Up flt migrations target d
            = Inr ((pre_version d, nv, Some e),
                   dm\<lparr>journal := journal dm @ [Forward (Version m)], schema := s\<rparr>)"
    if "f (schema dm) = (Some e, s)" for e s
    using that pend proc by (simp add: up Let_def)
  have 2: "Migrator_Up flt migrations target d = Inr ((pre_version d, Version m, Some e), d2)
            \<and> table d2 = table dm \<and> schema d2 = s
            \<and> journal d2 = journal dm @ step_events m"
    if "f (schema dm) = (None, s)"
      and "create flt (row_of m)
             (dm\<lparr>journal := journal dm @ [Forward (Version m)], schema := s\<rparr>) = (Some e, d2)"
    for e s d2
    using that pend proc create_failed[OF that(2)]
    by (simp add: up Let_def step_events_def)
  from run 1 2 show ?thesis by blast
qed

text \<open>
  The registry 1, 2, 3 against a table that holds version 1, in a store where the insert
  of version 2 fails: the forward procedure of 2 has run, its record is not written, and
  \<^verbatim>\<open>Up\<close> returns \<^verbatim>\<open>newVersion\<close> 2 although the last migration that is recorded as applied
  is 1.
\<close>

theorem up_newVersion_of_unrecorded_migration:
  "Migrator_Up (insert_faults \<lparr>row_version = 2, row_name = ''b''\<rparr>)
      [descriptor 1 ''-'', counting 2 ''b'', counting 3 ''c''] (- 1)
      (sample_db [\<lparr>row_version = 1, row_name = ''-''\<rparr>])
   = Inr ((1, 2, Some ErrStore),
          \<lparr>table = [\<lparr>row_version = 1, row_name = ''-''\<rparr>], schema = 1,
           journal = [Forward 2, Create \<lparr>row_version = 2, row_name = ''b''\<rparr>]\<rparr>)"
  by (simp add: Migrator_Up_def find_ordered_def insert_faults_def sample_db_def loaded_def
      mergeMigrations_def mergeMax_def mergeLoop1.simps mergeLoop2.simps mergeLoop3.simps
      Less_iff descriptor_def counting_def create_def row_of_def Let_def)

text \<open>
  A forward procedure that fails (registry 1, 2, 3, 4 with a failing 3): version 2 stays
  applied and recorded, 4 is not tried.  An insert that fails (registry 1, 2).
\<close>

theorem up_failure_returns_immediately_witness:
  "Migrator_Up no_faults
      [descriptor 1 ''-'', counting 2 ''b'', failing 3 ''c'', counting 4 ''d''] (- 1)
      (sample_db [\<lparr>row_version = 1, row_name = ''-''\<rparr>])
   = Inr ((1, 2, Some (ErrProcedure 7)),
          \<lparr>table = [\<lparr>row_version = 1, row_name = ''-''\<rparr>, \<lparr>row_version = 2, row_name = ''b''\<rparr>],
           schema = 1,
           journal = [Forward 2, Create \<lparr>row_version = 2, row_name = ''b''\<rparr>, Forward 3]\<rparr>)
   \<and> Migrator_Up (insert_faults \<lparr>row_version = 2, row_name = ''b''\<rparr>)
      [descriptor 1 ''-'', counting 2 ''b''] (- 1)
      (sample_db [\<lparr>row_version = 1, row_name = ''-''\<rparr>])
   = Inr ((1, 2, Some ErrStore),
          \<lparr>table = [\<lparr>row_version = 1, row_name = ''-''\<rparr>], schema = 1,
           journal = [Forward 2, Create \<lparr>row_version = 2, row_name = ''b''\<rparr>]\<rparr>)"
proof (rule conjI)
  let ?d = "sample_db [\<lparr>row_version = 1, row_name = ''-''\<rparr>]"
  let ?R = "[descriptor 1 ''-'', counting 2 ''b'', failing 3 ''c'', counting 4 ''d'']"
  let ?dm = "\<lparr>table = [\<lparr>row_version = 1, row_name = ''-''\<rparr>, \<lparr>row_version = 2, row_name = ''b''\<rparr>],
           schema = 1 :: nat,
           journal = [Forward 2, Create \<lparr>row_version = 2, row_name = ''b''\<rparr>]\<rparr>"
  let ?f = "\<lambda>s :: nat. (Some (ErrProcedure 7), s)"
  have read: "\<not> no_faults OpFind" by (simp add: no_faults_def)
  have pv: "pre_version ?d = 1"
    by (simp add: pre_version_def history_of_def loaded_def sample_db_def)
  have merged: "mergeMigrations (history_of ?d) ?R (- 1)
      = Inr ([applied_record 1 ''-'', counting 2 ''b''] @ failing 3 ''c'' # [counting 4 ''d''])"
    by (simp add: history_of_def sample_db_def loaded_def applied_record_def
        mergeMigrations_def mergeMax_def mergeLoop1.simps mergeLoop2.simps mergeLoop3.simps
        Less_iff descriptor_def counting_def failing_def)
  have before: "upLoop no_faults [applied_record 1 ''-'', counting 2 ''b''] (pre_version ?d) ?d
      = Inr ((2, None), ?dm)"
    by (simp add: pv applied_record_def counting_def sample_db_def create_def no_faults_def
        row_of_def Let_def)
  have pend: "\<not> Stored (failing 3 ''c'')" by (simp add: failing_def)
  have proc: "Up (failing 3 ''c'') = Some ?f" by (simp add: failing_def)
  from up_failure_returns_immediately[of no_faults, OF read merged before pend proc]
  have "\<forall>e s. ?f (schema ?dm) = (Some e, s) \<longrightarrow>
          Migrator_Up no_faults ?R (- 1) ?d
            = Inr ((pre_version ?d, 2, Some e),
                   ?dm\<lparr>journal := journal ?dm @ [Forward (Version (failing 3 ''c''))], schema := s\<rparr>)"
    by blast
  then show "Migrator_Up no_faults ?R (- 1) ?d
   = Inr ((1, 2, Some (ErrProcedure 7)),
          \<lparr>table = [\<lparr>row_version = 1, row_name = ''-''\<rparr>, \<lparr>row_version = 2, row_name = ''b''\<rparr>],
           schema = 1,
           journal = [Forward 2, Create \<lparr>row_version = 2, row_name = ''b''\<rparr>, Forward 3]\<rparr>)"
    by (simp add: pv failing_def)
next
  let ?d = "sample_db [\<lparr>row_version = 1, row_name = ''-''\<rparr>]"
  let ?R = "[descriptor 1 ''-'', counting 2 ''b'']"
  let ?flt = "insert_faults \<lparr>row_version = 2, row_name = ''b''\<rparr>"
  let ?f = "\<lambda>s :: nat. (None :: error option, Suc s)"
  let ?d2 = "\<lparr>table = [\<lparr>row_version = 1, row_name = ''-''\<rparr>], schema = 1 :: nat,
           journal = [Forward 2, Create \<lparr>row_version = 2, row_name = ''b''\<rparr>]\<rparr>"
  have read: "\<not> ?flt OpFind" by (simp add: insert_faults_def)
  have pv: "pre_version ?d = 1"
    by (simp add: pre_version_def history_of_def loaded_def sample_db_def)
  have merged: "mergeMigrations (history_of ?d) ?R (- 1)
      = Inr ([applied_record 1 ''-''] @ counting 2 ''b'' # [])"
    by (simp add: history_of_def sample_db_def loaded_def applied_record_def
        mergeMigrations_def mergeMax_def mergeLoop1.simps mergeLoop2.simps mergeLoop3.simps
        Less_iff descriptor_def counting_def)
  have before: "upLoop ?flt [applied_record 1 ''-''] (pre_version ?d) ?d = Inr ((1, None), ?d)"
    by (simp add: pv applied_record_def)
  have pend: "\<not> Stored (counting 2 ''b'')" by (simp add: counting_def)
  have proc: "Up (counting 2 ''b'') = Some ?f" by (simp add: counting_def)
  have cr: "?f (schema ?d) = (None, 1)
      \<and> create ?flt (row_of (counting 2 ''b''))
           (?d\<lparr>journal := journal ?d @ [Forward (Version (counting 2 ''b''))], schema := 1\<rparr>)
         = (Some ErrStore, ?d2)"
    by (simp add: sample_db_def create_def insert_faults_def row_of_def counting_def Let_def)
  from up_failure_returns_immediately[of ?flt, OF read merged before pend proc] cr
  have "Migrator_Up ?flt ?R (- 1) ?d = Inr ((pre_version ?d, Version (counting 2 ''b''), Some ErrStore), ?d2)"
    by blast
  then show "Migrator_Up ?flt ?R (- 1) ?d = Inr ((1, 2, Some ErrStore), ?d2)"
    by (simp add: pv counting_def)
qed

text \<open>
  Conversely, every error that \<^verbatim>\<open>Up\<close> returns after a successful read of the history comes
  from such a failure: the merged list splits at the entry that failed.
\<close>

lemma up_error_shape:
  assumes "Migrator_Up flt migrations target d = Inr ((oldVersion, newVersion, Some e), d')"
    and "\<not> flt OpFind"
  shows "\<exists>merged done m rest.
      mergeMigrations (history_of d) migrations target = Inr merged
    \<and> merged = done @ m # rest \<and> \<not> Stored m
    \<and> table d' = table d @ map row_of (pending done)
    \<and> (journal d' = journal d @ concat (map step_events (pending done)) @ [Forward (Version m)]
          \<and> newVersion = last (oldVersion # map Version (pending done))
        \<or> journal d' = journal d @ concat (map step_events (pending done)) @ step_events m
          \<and> newVersion = Version m)"
proof -
  from assms obtain merged where m: "mergeMigrations (history_of d) migrations target = Inr merged"
    and u: "upLoop flt merged (pre_version d) d = Inr ((newVersion, Some e), d')"
    and o: "oldVersion = pre_version d"
    by (auto simp: Migrator_Up_read_ok split: sum.splits prod.splits)
  from upLoop_error[OF u] m o show ?thesis
    by auto
qed

section \<open>Up called twice\<close>

subsection \<open>Counting over the first loop\<close>





subsection \<open>Counting in strictly ascending lists\<close>








subsection \<open>The loop of Up and the history\<close>








subsection \<open>The second call\<close>












section \<open>Version and SetVersion\<close>

lemma setVersionLoop_char:
  "setVersionLoop ms target i migs =
     (if target \<in> Version ` set ms
      then (Some (i + length (takeWhile (\<lambda>m. Version m \<noteq> target) ms)), migs @ through target ms)
      else (None, migs @ ms))"
  by (induction ms target i migs rule: setVersionLoop.induct) (auto simp: through_def)

lemma through_last:
  assumes "target \<in> Version ` set ms"
  shows "through target ms \<noteq> [] \<and> Version (last (through target ms)) = target"
proof -
  from assms have "dropWhile (\<lambda>m. Version m \<noteq> target) ms \<noteq> []"
    by auto
  then obtain x xs where d: "dropWhile (\<lambda>m. Version m \<noteq> target) ms = x # xs"
    by (cases "dropWhile (\<lambda>m. Version m \<noteq> target) ms") auto
  then have "Version x = target" using hd_dropWhile[of "\<lambda>m. Version m \<noteq> target" ms] by auto
  with d show ?thesis by (simp add: through_def)
qed

lemma through_prefix: "\<exists>zs. ms = through target ms @ zs"
proof -
  have "ms = takeWhile (\<lambda>m. Version m \<noteq> target) ms @ dropWhile (\<lambda>m. Version m \<noteq> target) ms"
    by simp
  also have "dropWhile (\<lambda>m. Version m \<noteq> target) ms =
      take 1 (dropWhile (\<lambda>m. Version m \<noteq> target) ms) @ drop 1 (dropWhile (\<lambda>m. Version m \<noteq> target) ms)"
    by simp
  finally show ?thesis unfolding through_def by (metis append.assoc)
qed

lemma through_distinct:
  assumes "distinct (map Version ms)"
  shows "distinct (map row_version (map row_of (through target ms)))"
proof -
  obtain zs where "ms = through target ms @ zs" using through_prefix by blast
  then have "map Version ms = map Version (through target ms) @ map Version zs"
    by (metis map_append)
  with assms have "distinct (map Version (through target ms))" by simp
  then show ?thesis by (simp add: row_of_def comp_def)
qed

text \<open>
  C8.  For a target version present in the registry (whose versions are unique), on a
  table that is not empty and a store whose operations succeed: \<^verbatim>\<open>SetVersion\<close> succeeds
  and reports the target as \<^verbatim>\<open>newVersion\<close>; it leaves the schema alone and adds to the
  journal the delete and the bulk insert only, so no forward or backward procedure is
  called; and \<^verbatim>\<open>Version\<close> then returns the target.
\<close>

theorem setversion_then_version:
  assumes "target \<in> Version ` set migrations"
    and "distinct (map Version migrations)"
    and "table d \<noteq> []"
    and "\<not> flt OpLast" and "\<not> flt OpDeleteAll" and "\<not> flt OpCreateBatch"
    and "\<not> flt' OpLast"
  shows "\<exists>d'. Migrator_SetVersion flt migrations target d
              = ((row_version (last (table d)), target, None), d')
     \<and> d' = d\<lparr>table := map row_of (through target migrations),
              journal := journal d @ [DeleteAll, CreateBatch (map row_of (through target migrations))]\<rparr>
     \<and> Migrator_Version flt' d' = (target, target, None)"
proof -
  let ?migs = "through target migrations"
  from through_last[OF assms(1)] have ne: "?migs \<noteq> []" and l: "Version (last ?migs) = target"
    by simp_all
  have l': "Version (?migs ! (length ?migs - 1)) = target"
    using ne l by (simp add: last_conv_nth)
  have dd: "distinct (map row_version (map row_of ?migs))"
    using through_distinct[OF assms(2)] .
  have rl: "row_version (last (map row_of ?migs)) = target"
    using ne l by (simp add: last_map row_of_def)
  show ?thesis
    using assms ne l' dd rl
    by (simp add: Migrator_SetVersion_def Migrator_Version_def last_record_def
        setVersionLoop_char delete_all_def create_batch_def Let_def)
qed

theorem setversion_then_version_witness:
  "Migrator_SetVersion no_faults [descriptor 1 ''-'', counting 2 ''b'', counting 3 ''c''] 2
      (sample_db [\<lparr>row_version = 1, row_name = ''-''\<rparr>])
     = ((1, 2, None),
        \<lparr>table = [\<lparr>row_version = 1, row_name = ''-''\<rparr>, \<lparr>row_version = 2, row_name = ''b''\<rparr>],
         schema = 0,
         journal = [DeleteAll,
           CreateBatch [\<lparr>row_version = 1, row_name = ''-''\<rparr>, \<lparr>row_version = 2, row_name = ''b''\<rparr>]]\<rparr>)
   \<and> Migrator_Version no_faults
        \<lparr>table = [\<lparr>row_version = 1, row_name = ''-''\<rparr>, \<lparr>row_version = 2, row_name = ''b''\<rparr>],
         schema = (0 :: nat),
         journal = [DeleteAll,
           CreateBatch [\<lparr>row_version = 1, row_name = ''-''\<rparr>, \<lparr>row_version = 2, row_name = ''b''\<rparr>]]\<rparr>
     = (2, 2, None)"
  using setversion_then_version
    [of 2 "[descriptor 1 ''-'', counting 2 ''b'', counting 3 ''c'']"
        "sample_db [\<lparr>row_version = 1, row_name = ''-''\<rparr>]" no_faults no_faults]
  by (simp add: no_faults_def sample_db_def descriptor_def counting_def through_def row_of_def)

text \<open>
  With an ascending registry the target is also the highest version in the table that
  \<^verbatim>\<open>SetVersion\<close> leaves: the row inserted last and the row of the greatest key are the same.
\<close>

lemma setversion_target_is_highest:
  assumes "target \<in> Version ` set migrations" and "sorted_wrt Less migrations"
  shows "pre_version (d\<lparr>table := map row_of (through target migrations), journal := js\<rparr>) = target"
proof -
  let ?migs = "through target migrations"
  let ?f = "\<lambda>r. sint (row_version r)"
  obtain zs where "migrations = ?migs @ zs" using through_prefix by blast
  with assms(2) have "sorted_wrt Less ?migs" by (metis sorted_wrt_append)
  then have "sorted_wrt (\<lambda>x y. ver x < ver y) ?migs"
    by (rule sorted_wrt_mono_rel[rotated]) (simp add: Less_iff)
  then have "sorted_wrt (<) (map ver ?migs)"
    by (simp add: sorted_wrt_map)
  then have "sorted (map ver ?migs)" by (simp add: strict_sorted_iff)
  moreover have "map ?f (map row_of ?migs) = map ver ?migs" by (simp add: row_of_def)
  ultimately have "sorted (map ?f (map row_of ?migs))" by (simp only:)
  then have "sort_key ?f (map row_of ?migs) = map row_of ?migs"
    by (rule sort_key_id_if_sorted)
  moreover from through_last[OF assms(1)]
  have "?migs \<noteq> []" "Version (?migs ! (length ?migs - 1)) = target"
    by (auto simp: last_conv_nth)
  ultimately show ?thesis
    by (simp add: pre_version_def history_of_def loaded_def row_of_def)
qed

text \<open>
  C9.  For a target version that is not in the registry, \<^verbatim>\<open>SetVersion\<close> leaves the database
  as it was: table, schema and journal, so no delete and no insert is issued.  When the
  read of the current version succeeds (the table is not empty and the store answers),
  the error is \<^verbatim>\<open>ErrorTargetVersionNotFound\<close>.
\<close>

theorem setversion_unknown_target:
  assumes "target \<notin> Version ` set migrations"
  shows "snd (Migrator_SetVersion flt migrations target d) = d
     \<and> (table d \<noteq> [] \<and> \<not> flt OpLast \<longrightarrow>
          fst (Migrator_SetVersion flt migrations target d)
            = (row_version (last (table d)), 0, Some ErrorTargetVersionNotFound))"
  using assms
  by (simp add: Migrator_SetVersion_def Migrator_Version_def last_record_def
      setVersionLoop_char)

theorem setversion_unknown_target_witness:
  "Migrator_SetVersion no_faults [descriptor 1 ''-'', counting 2 ''b''] 7
      (sample_db [\<lparr>row_version = 1, row_name = ''-''\<rparr>, \<lparr>row_version = 2, row_name = ''b''\<rparr>])
     = ((2, 0, Some ErrorTargetVersionNotFound),
        sample_db [\<lparr>row_version = 1, row_name = ''-''\<rparr>, \<lparr>row_version = 2, row_name = ''b''\<rparr>])"
  using setversion_unknown_target
    [of 7 "[descriptor 1 ''-'', counting 2 ''b'']" no_faults
        "sample_db [\<lparr>row_version = 1, row_name = ''-''\<rparr>, \<lparr>row_version = 2, row_name = ''b''\<rparr>]"]
  by (simp add: no_faults_def sample_db_def descriptor_def counting_def prod_eq_iff)

text \<open>
  C10.  On a table that is not empty, when the read succeeds, \<^verbatim>\<open>Version\<close> returns the
  version of the row inserted last as \<^verbatim>\<open>oldVersion\<close> and as \<^verbatim>\<open>newVersion\<close>.  In the
  witness the rows were inserted in the order 1, 3, 2 and the answer is 2, not the
  maximum 3.
\<close>

theorem version_last_inserted:
  assumes "table d \<noteq> []" and "\<not> flt OpLast"
  shows "Migrator_Version flt d
     = (row_version (last (table d)), row_version (last (table d)), None)"
  using assms by (simp add: Migrator_Version_def last_record_def)

theorem version_last_inserted_witness:
  "Migrator_Version no_faults
     (sample_db [\<lparr>row_version = 1, row_name = ''-''\<rparr>, \<lparr>row_version = 3, row_name = ''c''\<rparr>,
                 \<lparr>row_version = 2, row_name = ''b''\<rparr>])
   = (2, 2, None)"
  using version_last_inserted
    [of "sample_db [\<lparr>row_version = 1, row_name = ''-''\<rparr>, \<lparr>row_version = 3, row_name = ''c''\<rparr>,
                 \<lparr>row_version = 2, row_name = ''b''\<rparr>]" no_faults]
  by (simp add: no_faults_def sample_db_def)

end
